theory Spec2Isabelle
  imports Complex_Main "HOL-Library.List_Lexorder" "HOL-Library.Sublist"
begin

section \<open>JavaScript values used by the fuzzy matcher\<close>

subsection \<open>Numbers\<close>

text \<open>
  A JavaScript number is an IEEE 754 binary64 value. A finite value is represented by
  the rational it denotes, and every arithmetic operation rounds its exact result to
  the nearest double, ties to even (\<open>round_double\<close>), overflowing to an infinity. The
  two zeros are one value \<open>Fin 0\<close>: the program observes a score only through \<open>>\<close>,
  \<open>===\<close> and \<open>*\<close>, which do not tell them apart, and every divisor that is zero in
  \<open>fuzzyMatchScore\<close> is \<open>+0\<close> (a length, or a difference of two equal values), so a
  zero divisor is read as \<open>+0\<close>.
\<close>

datatype number = NaN | PosInf | NegInf | Fin rat

text \<open>\<open>2\<close> to an integer power.\<close>

definition pow2 :: "int \<Rightarrow> rat" where
  "pow2 e = (if 0 \<le> e then 2 ^ nat e else 1 / 2 ^ nat (- e))"

text \<open>The number of binary digits of a positive integer.\<close>

function bitlen :: "int \<Rightarrow> int" where
  "bitlen n = (if n \<le> 0 then 0 else 1 + bitlen (n div 2))"
  by pat_completeness auto
termination
  by (relation "measure nat") auto

declare bitlen.simps [simp del]

text \<open>The binary exponent of a positive rational \<open>a\<close>: \<open>2 ^ e \<le> a < 2 ^ (e + 1)\<close>.\<close>

definition ilog2 :: "rat \<Rightarrow> int" where
  "ilog2 a =
     (let (p, q) = quotient_of a;
          d = bitlen p - bitlen q
      in if pow2 d \<le> a then d else d - 1)"

text \<open>The nearest integer to a non-negative rational, ties to the even one.\<close>

definition round_half_even :: "rat \<Rightarrow> int" where
  "round_half_even q =
     (let f = \<lfloor>q\<rfloor>
      in if q - of_int f < 1 / 2 then f
         else if 1 / 2 < q - of_int f then f + 1
         else if even f then f else f + 1)"

text \<open>
  Rounding to binary64: 53 significant bits, the least exponent \<open>-1022\<close> (below it the
  spacing stays \<open>2 ^ -1074\<close>), and an infinity once the rounded value reaches
  \<open>2 ^ 1024\<close>.
\<close>

definition round_double :: "rat \<Rightarrow> number" where
  "round_double x =
     (if x = 0 then Fin 0
      else let a = \<bar>x\<bar>;
               e = max (ilog2 a) (- 1022);
               u = pow2 (e - 52);
               m = round_half_even (a / u)
           in if 1023 < e \<or> (e = 1023 \<and> 9007199254740992 \<le> m)
              then (if 0 < x then PosInf else NegInf)
              else Fin (sgn x * (of_int m * u)))"

text \<open>\<open>a > b\<close>: false as soon as one side is \<open>NaN\<close>.\<close>

fun num_gt :: "number \<Rightarrow> number \<Rightarrow> bool" where
  "num_gt (Fin x) (Fin y) = (y < x)"
| "num_gt PosInf (Fin y) = True"
| "num_gt PosInf NegInf = True"
| "num_gt (Fin x) NegInf = True"
| "num_gt _ _ = False"

text \<open>\<open>a === b\<close> on numbers: \<open>NaN\<close> is not equal to itself.\<close>

fun num_eq :: "number \<Rightarrow> number \<Rightarrow> bool" where
  "num_eq (Fin x) (Fin y) = (x = y)"
| "num_eq PosInf PosInf = True"
| "num_eq NegInf NegInf = True"
| "num_eq _ _ = False"

text \<open>\<open>a + b\<close>.\<close>

fun num_add :: "number \<Rightarrow> number \<Rightarrow> number" where
  "num_add (Fin x) (Fin y) = round_double (x + y)"
| "num_add NaN _ = NaN"
| "num_add _ NaN = NaN"
| "num_add PosInf NegInf = NaN"
| "num_add NegInf PosInf = NaN"
| "num_add PosInf _ = PosInf"
| "num_add NegInf _ = NegInf"
| "num_add (Fin x) PosInf = PosInf"
| "num_add (Fin x) NegInf = NegInf"

text \<open>\<open>a - b\<close>.\<close>

fun num_sub :: "number \<Rightarrow> number \<Rightarrow> number" where
  "num_sub (Fin x) (Fin y) = round_double (x - y)"
| "num_sub NaN _ = NaN"
| "num_sub _ NaN = NaN"
| "num_sub PosInf PosInf = NaN"
| "num_sub NegInf NegInf = NaN"
| "num_sub PosInf _ = PosInf"
| "num_sub NegInf _ = NegInf"
| "num_sub (Fin x) PosInf = NegInf"
| "num_sub (Fin x) NegInf = PosInf"

text \<open>\<open>a / b\<close>: a finite non-zero value over zero is an infinity, \<open>0 / 0\<close> is \<open>NaN\<close>.\<close>

fun num_div :: "number \<Rightarrow> number \<Rightarrow> number" where
  "num_div (Fin x) (Fin y) =
     (if y = 0 then (if x = 0 then NaN else if 0 < x then PosInf else NegInf)
      else round_double (x / y))"
| "num_div NaN _ = NaN"
| "num_div _ NaN = NaN"
| "num_div (Fin x) PosInf = Fin 0"
| "num_div (Fin x) NegInf = Fin 0"
| "num_div PosInf (Fin y) = (if 0 \<le> y then PosInf else NegInf)"
| "num_div NegInf (Fin y) = (if 0 \<le> y then NegInf else PosInf)"
| "num_div _ _ = NaN"

text \<open>\<open>a * b\<close>: an infinity times zero is \<open>NaN\<close>.\<close>

fun num_mul :: "number \<Rightarrow> number \<Rightarrow> number" where
  "num_mul (Fin x) (Fin y) = round_double (x * y)"
| "num_mul NaN _ = NaN"
| "num_mul _ NaN = NaN"
| "num_mul PosInf (Fin y) = (if y = 0 then NaN else if 0 < y then PosInf else NegInf)"
| "num_mul NegInf (Fin y) = (if y = 0 then NaN else if 0 < y then NegInf else PosInf)"
| "num_mul (Fin x) PosInf = (if x = 0 then NaN else if 0 < x then PosInf else NegInf)"
| "num_mul (Fin x) NegInf = (if x = 0 then NaN else if 0 < x then NegInf else PosInf)"
| "num_mul PosInf PosInf = PosInf"
| "num_mul NegInf NegInf = PosInf"
| "num_mul PosInf NegInf = NegInf"
| "num_mul NegInf PosInf = NegInf"

text \<open>An array length or an index, as a number.\<close>

definition to_number :: "nat \<Rightarrow> number" where
  "to_number n = round_double (of_nat n)"

subsection \<open>Strings\<close>

text \<open>
  A string is the list of its UTF-16 code units. The model covers the code units below
  256 (ASCII and Latin-1), \<open>U+0130\<close> (capital I with dot above) and \<open>U+0307\<close>
  (combining dot above). On these, \<open>toLowerCase\<close> has no context-dependent rule; it
  maps \<open>U+0130\<close> to the two code units \<open>U+0069 U+0307\<close>, so it does not keep the
  length of a string. Strings with other code units are outside the model.
\<close>

datatype code_unit = Latin1 char | U0130 | U0307

type_synonym jsstring = "code_unit list"

text \<open>A string of Latin-1 code units, from its literal.\<close>

definition js :: "string \<Rightarrow> jsstring" where
  "js s = map Latin1 s"

text \<open>The numeric value of a code unit; strings compare by these values.\<close>

fun code :: "code_unit \<Rightarrow> nat" where
  "code (Latin1 c) = of_char c"
| "code U0130 = 304"
| "code U0307 = 775"

definition toLowerCase_char :: "char \<Rightarrow> char" where
  "toLowerCase_char c =
     (let n = (of_char c :: nat)
      in if (65 \<le> n \<and> n \<le> 90) \<or> (192 \<le> n \<and> n \<le> 222 \<and> n \<noteq> 215)
         then char_of (n + 32) else c)"

text \<open>\<open>c.toLowerCase()\<close> for a string \<open>c\<close> of one code unit, as \<open>s.charAt(i)\<close> is.\<close>

fun lower_unit :: "code_unit \<Rightarrow> jsstring" where
  "lower_unit (Latin1 c) = [Latin1 (toLowerCase_char c)]"
| "lower_unit U0130 = [Latin1 CHR ''i'', U0307]"
| "lower_unit U0307 = [U0307]"

definition toLowerCase :: "jsstring \<Rightarrow> jsstring" where
  "toLowerCase s = concat (map lower_unit s)"

text \<open>The class \<open>\s\<close> of the regular expressions, on the modelled code units.\<close>

definition is_space :: "code_unit \<Rightarrow> bool" where
  "is_space u = (code u \<in> {9, 10, 11, 12, 13, 32, 160})"

text \<open>\<open>s.replace(/\s+/g, '')\<close>: every white-space code unit is dropped.\<close>

definition strip_spaces :: "jsstring \<Rightarrow> jsstring" where
  "strip_spaces s = filter (\<lambda>u. \<not> is_space u) s"

text \<open>\<open>query.toLowerCase().replace(/\s+/g, '')\<close>, the normal form both matchers use.\<close>

definition normalize_query :: "jsstring \<Rightarrow> jsstring" where
  "normalize_query query = strip_spaces (toLowerCase query)"

text \<open>
  \<open>s.indexOf(t, fromIdx)\<close>: the least position at or after \<open>fromIdx\<close> (clamped to the
  length) where \<open>t\<close> occurs in \<open>s\<close>; \<open>None\<close> stands for \<open>-1\<close>.
\<close>

definition indexOf :: "jsstring \<Rightarrow> jsstring \<Rightarrow> nat \<Rightarrow> nat option" where
  "indexOf s t fromIdx =
     List.find (\<lambda>i. take (length t) (drop i s) = t) [min fromIdx (length s) ..< Suc (length s)]"

subsection \<open>The token regular expression\<close>

text \<open>
  \<open>/[a-z][a-z0-9]*(?=[A-Z]|\b|_)|[A-Z][a-z0-9]*/g\<close>, matched as a backtracking engine
  does: at each start position the first alternative is tried before the second, the
  star is greedy and gives characters back until the look-ahead holds.
\<close>

definition is_az :: "code_unit \<Rightarrow> bool" where
  "is_az u = (97 \<le> code u \<and> code u \<le> 122)"

definition is_AZ :: "code_unit \<Rightarrow> bool" where
  "is_AZ u = (65 \<le> code u \<and> code u \<le> 90)"

definition is_09 :: "code_unit \<Rightarrow> bool" where
  "is_09 u = (48 \<le> code u \<and> code u \<le> 57)"

definition is_az09 :: "code_unit \<Rightarrow> bool" where
  "is_az09 u = (is_az u \<or> is_09 u)"

text \<open>The class \<open>\w\<close>.\<close>

definition is_word :: "code_unit \<Rightarrow> bool" where
  "is_word u = (is_az u \<or> is_AZ u \<or> is_09 u \<or> u = Latin1 CHR ''_'')"

text \<open>\<open>\b\<close> at position \<open>e\<close>: exactly one of the two neighbours is a word character.\<close>

definition word_boundary :: "jsstring \<Rightarrow> nat \<Rightarrow> bool" where
  "word_boundary src e =
     ((0 < e \<and> e \<le> length src \<and> is_word (src ! (e - 1))) \<noteq> (e < length src \<and> is_word (src ! e)))"

text \<open>The look-ahead \<open>(?=[A-Z]|\b|_)\<close> at position \<open>e\<close>.\<close>

definition lookahead :: "jsstring \<Rightarrow> nat \<Rightarrow> bool" where
  "lookahead src e =
     ((e < length src \<and> is_AZ (src ! e)) \<or> word_boundary src e
      \<or> (e < length src \<and> src ! e = Latin1 CHR ''_''))"

text \<open>The length of the longest run \<open>[a-z0-9]*\<close> starting at position \<open>p\<close>.\<close>

definition run_az09 :: "jsstring \<Rightarrow> nat \<Rightarrow> nat" where
  "run_az09 src p = length (takeWhile is_az09 (drop p src))"

text \<open>First alternative at \<open>p\<close>: the end of the match, longest run first.\<close>

definition alt_lower :: "jsstring \<Rightarrow> nat \<Rightarrow> nat option" where
  "alt_lower src p =
     (if p < length src \<and> is_az (src ! p)
      then List.find (lookahead src) (rev [Suc p ..< Suc (Suc p + run_az09 src (Suc p))])
      else None)"

text \<open>Second alternative at \<open>p\<close>.\<close>

definition alt_upper :: "jsstring \<Rightarrow> nat \<Rightarrow> nat option" where
  "alt_upper src p =
     (if p < length src \<and> is_AZ (src ! p) then Some (Suc p + run_az09 src (Suc p)) else None)"

definition match_at :: "jsstring \<Rightarrow> nat \<Rightarrow> nat option" where
  "match_at src p = (case alt_lower src p of Some e \<Rightarrow> Some e | None \<Rightarrow> alt_upper src p)"

fun first_match :: "jsstring \<Rightarrow> nat list \<Rightarrow> (nat \<times> nat) option" where
  "first_match src [] = None"
| "first_match src (p # ps) =
     (case match_at src p of Some e \<Rightarrow> Some (p, e) | None \<Rightarrow> first_match src ps)"

text \<open>
  \<open>regex.exec(source)\<close> with the global flag and the given \<open>lastIndex\<close>: the leftmost match
  at or after \<open>lastIndex\<close> as \<open>Some (index, new lastIndex)\<close>; \<open>None\<close> is \<open>null\<close>, after
  which \<open>lastIndex\<close> is 0 again.
\<close>

definition regex_exec :: "jsstring \<Rightarrow> nat \<Rightarrow> (nat \<times> nat) option" where
  "regex_exec src lastIndex = first_match src [lastIndex ..< Suc (length src)]"

section \<open>The matchers\<close>

record FuzzyMatchResult =
  score :: number
  matches :: "nat list"

record FuzzyMatchOptions =
  tokenScoreBias :: "number option"

text \<open>
  \<open>fuzzyMatchScore\<close>: \<open>n / (sum - (n / l))\<close>, with \<open>sum\<close> accumulated by \<open>reduce\<close> from 0;
  each addition, the subtraction and both divisions round.
\<close>

definition fuzzyMatchScore :: "jsstring \<Rightarrow> nat list \<Rightarrow> number" where
  "fuzzyMatchScore source ms =
     (let l = to_number (length source);
          n = to_number (length ms);
          sum = foldl (\<lambda>sum m. num_add sum (to_number m)) (Fin 0) ms
      in num_div n (num_sub sum (num_div n l)))"

text \<open>Every match of the regular expression is non-empty and lies inside the string.\<close>

lemma find_in_set: "List.find P xs = Some x \<Longrightarrow> x \<in> set xs"
  by (induction xs) (auto split: if_splits)

lemma find_holds: "List.find P xs = Some x \<Longrightarrow> P x"
  by (induction xs) (auto split: if_splits)

lemma alt_lower_bounds: "alt_lower src p = Some e \<Longrightarrow> p < e \<and> e \<le> length src"
proof -
  assume a: "alt_lower src p = Some e"
  then have p: "p < length src"
    by (simp add: alt_lower_def split: if_splits)
  from a have "List.find (lookahead src) (rev [Suc p ..< Suc (Suc p + run_az09 src (Suc p))]) = Some e"
    by (simp add: alt_lower_def split: if_splits)
  then have "e \<in> set (rev [Suc p ..< Suc (Suc p + run_az09 src (Suc p))])"
    by (rule find_in_set)
  then have e: "Suc p \<le> e" "e \<le> Suc p + run_az09 src (Suc p)"
    by (simp_all del: upt_Suc)
  have "run_az09 src (Suc p) \<le> length (drop (Suc p) src)"
    unfolding run_az09_def by (rule length_takeWhile_le)
  with p e show ?thesis by simp
qed

lemma alt_upper_bounds: "alt_upper src p = Some e \<Longrightarrow> p < e \<and> e \<le> length src"
proof -
  assume a: "alt_upper src p = Some e"
  then have p: "p < length src" and e: "e = Suc p + run_az09 src (Suc p)"
    by (auto simp: alt_upper_def split: if_splits)
  have "run_az09 src (Suc p) \<le> length (drop (Suc p) src)"
    unfolding run_az09_def by (rule length_takeWhile_le)
  with p e show ?thesis by simp
qed

lemma match_at_bounds: "match_at src p = Some e \<Longrightarrow> p < e \<and> e \<le> length src"
  by (auto simp: match_at_def split: option.splits dest: alt_lower_bounds alt_upper_bounds)

lemma first_match_bounds:
  "first_match src ps = Some (p, e) \<Longrightarrow> p \<in> set ps \<and> p < e \<and> e \<le> length src"
  by (induction ps) (auto split: option.splits dest: match_at_bounds)

lemma regex_exec_bounds:
  "regex_exec src lastIndex = Some (p, e) \<Longrightarrow> lastIndex \<le> p \<and> p < e \<and> e \<le> length src"
  unfolding regex_exec_def by (auto dest: first_match_bounds)

text \<open>
  The loop of \<open>fuzzyMatchByTokens\<close>. Its state is the regular expression's \<open>lastIndex\<close>,
  the cursor, the queue of query letters and the matches pushed so far; \<open>None\<close> is the
  early \<open>return { score: 0, matches: [] }\<close>, \<open>Some ms\<close> is leaving the loop with
  \<open>matches = ms\<close>.
\<close>

function tokens_loop :: "jsstring \<Rightarrow> nat \<Rightarrow> nat \<Rightarrow> jsstring \<Rightarrow> nat list \<Rightarrow> nat list option" where
  "tokens_loop source lastIndex cursor [] ms = Some ms"
| "tokens_loop source lastIndex cursor (letter # rest) ms =
     (if length source \<le> cursor then None
      else if [letter] = lower_unit (source ! cursor)
      then tokens_loop source lastIndex (cursor + 1) rest (ms @ [cursor])
      else (case regex_exec source lastIndex of
              None \<Rightarrow> tokens_loop source 0 (length source) (letter # rest) ms
            | Some (idx, e) \<Rightarrow> tokens_loop source e idx (letter # rest) ms))"
  by pat_completeness auto
termination
proof (relation "measures [\<lambda>(source, lastIndex, cursor, queue, ms). length queue,
                            \<lambda>(source, lastIndex, cursor, queue, ms). if cursor < length source then 1 else 0,
                            \<lambda>(source, lastIndex, cursor, queue, ms). length source - lastIndex]",
       goal_cases)
  case 1
  show ?case by simp
next
  case 2
  then show ?case by simp
next
  case 3
  then show ?case by simp
next
  case (4 source lastIndex cursor letter rest ms x2 idx e)
  then have "regex_exec source lastIndex = Some (idx, e)" by simp
  from regex_exec_bounds [OF this] 4 show ?case by auto
qed

definition fuzzyMatchByTokens :: "jsstring \<Rightarrow> jsstring \<Rightarrow> FuzzyMatchResult" where
  "fuzzyMatchByTokens query source =
     (case tokens_loop source 0 0 (normalize_query query) [] of
        None \<Rightarrow> \<lparr>score = Fin 0, matches = []\<rparr>
      | Some ms \<Rightarrow> \<lparr>score = fuzzyMatchScore source ms, matches = ms\<rparr>)"

text \<open>
  The loop of \<open>fuzzyMatchByWildcard\<close> over the letters of the normalised query, with
  \<open>fromIdx\<close> and the matches pushed so far.
\<close>

fun wildcard_loop :: "jsstring \<Rightarrow> jsstring \<Rightarrow> nat \<Rightarrow> nat list \<Rightarrow> nat list option" where
  "wildcard_loop sourceLowercased [] fromIdx ms = Some ms"
| "wildcard_loop sourceLowercased (c # rest) fromIdx ms =
     (case indexOf sourceLowercased (lower_unit c) fromIdx of
        None \<Rightarrow> None
      | Some idx \<Rightarrow> wildcard_loop sourceLowercased rest (idx + 1) (ms @ [idx]))"

definition fuzzyMatchByWildcard :: "jsstring \<Rightarrow> jsstring \<Rightarrow> FuzzyMatchResult" where
  "fuzzyMatchByWildcard query source =
     (case wildcard_loop (toLowerCase source) (normalize_query query) 0 [] of
        None \<Rightarrow> \<lparr>score = Fin 0, matches = []\<rparr>
      | Some ms \<Rightarrow> \<lparr>score = fuzzyMatchScore source ms, matches = ms\<rparr>)"

text \<open>\<open>const { tokenScoreBias = 10 } = options\<close>.\<close>

definition bias_of :: "FuzzyMatchOptions \<Rightarrow> number" where
  "bias_of options = (case tokenScoreBias options of None \<Rightarrow> Fin 10 | Some b \<Rightarrow> b)"

definition fuzzyMatch :: "jsstring \<Rightarrow> jsstring \<Rightarrow> FuzzyMatchOptions \<Rightarrow> FuzzyMatchResult" where
  "fuzzyMatch query source options =
     (let tokenMatch = fuzzyMatchByTokens query source
      in if num_gt (score tokenMatch) (Fin 0)
         then \<lparr>score = num_mul (score tokenMatch) (bias_of options),
               matches = matches tokenMatch\<rparr>
         else fuzzyMatchByWildcard query source)"

section \<open>Search\<close>

record FuzzySearchResult = FuzzyMatchResult +
  source :: jsstring
  sourceIndex :: nat

text \<open>The loop over \<open>sources.entries()\<close>, pushing the candidates whose score is \<open>> 0\<close>.\<close>

definition search_step ::
  "jsstring \<Rightarrow> FuzzyMatchOptions \<Rightarrow> FuzzySearchResult list \<Rightarrow> nat \<times> jsstring \<Rightarrow> FuzzySearchResult list" where
  "search_step query options results entry =
     (let match = fuzzyMatch query (snd entry) options
      in if num_gt (score match) (Fin 0)
         then results @ [\<lparr>score = score match, matches = matches match,
                           source = snd entry, sourceIndex = fst entry\<rparr>]
         else results)"

definition collect_results ::
  "jsstring \<Rightarrow> jsstring list \<Rightarrow> FuzzyMatchOptions \<Rightarrow> FuzzySearchResult list" where
  "collect_results query sources options =
     foldl (search_step query options) [] (enumerate 0 sources)"

text \<open>
  The comparator handed to \<open>sort\<close>; \<open>a.source > b.source\<close> compares the strings code
  unit by code unit.
\<close>

definition compare_results :: "FuzzySearchResult \<Rightarrow> FuzzySearchResult \<Rightarrow> int" where
  "compare_results a b =
     (if num_eq (score a) (score b)
      then (if map code (source b) < map code (source a) then 1 else - 1)
      else if num_gt (score a) (score b) then - 1 else 1)"

text \<open>
  \<open>Array.prototype.sort\<close> with a comparator, as a stable insertion sort: \<open>a\<close> stays
  before \<open>b\<close> unless the comparator is positive on \<open>(a, b)\<close>.
\<close>

fun insert_by :: "('a \<Rightarrow> 'a \<Rightarrow> int) \<Rightarrow> 'a \<Rightarrow> 'a list \<Rightarrow> 'a list" where
  "insert_by cmp x [] = [x]"
| "insert_by cmp x (y # ys) =
     (if cmp x y \<le> 0 then x # y # ys else y # insert_by cmp x ys)"

definition sort_by :: "('a \<Rightarrow> 'a \<Rightarrow> int) \<Rightarrow> 'a list \<Rightarrow> 'a list" where
  "sort_by cmp xs = foldr (insert_by cmp) xs []"

definition fuzzySearch ::
  "jsstring \<Rightarrow> jsstring list \<Rightarrow> FuzzyMatchOptions \<Rightarrow> FuzzySearchResult list" where
  "fuzzySearch query sources options =
     sort_by compare_results (collect_results query sources options)"

section \<open>Notions of the specification\<close>

text \<open>
  The leftmost-greedy embedding of the letters \<open>q\<close> into \<open>s\<close> from \<open>fromIdx\<close> on, in the
  specification's words: each position is the smallest index at or after the previous
  position plus one that holds the required character.
\<close>

fun leftmost_greedy :: "jsstring \<Rightarrow> jsstring \<Rightarrow> nat \<Rightarrow> nat list \<Rightarrow> bool" where
  "leftmost_greedy s [] fromIdx ms = (ms = [])"
| "leftmost_greedy s (c # cs) fromIdx ms =
     (case ms of
        [] \<Rightarrow> False
      | m # ms' \<Rightarrow> fromIdx \<le> m \<and> m < length s \<and> s ! m = c
                  \<and> (\<forall>j \<in> {fromIdx ..< m}. s ! j \<noteq> c)
                  \<and> leftmost_greedy s cs (m + 1) ms')"

text \<open>
  The ranking of the specification: score descending and, for exactly equal scores,
  source string ascending.
\<close>

definition ranked_before :: "FuzzySearchResult \<Rightarrow> FuzzySearchResult \<Rightarrow> bool" where
  "ranked_before a b =
     (num_gt (score a) (score b)
      \<or> (num_eq (score a) (score b) \<and> map code (source a) \<le> map code (source b)))"


section \<open>Properties\<close>

subsection \<open>Rounding is exact on the integers below \<open>2 ^ 53\<close>\<close>

lemma bitlen_bounds:
  "0 < n \<Longrightarrow> 1 \<le> bitlen n \<and> 2 ^ nat (bitlen n - 1) \<le> n \<and> n < 2 ^ nat (bitlen n)"
proof (induction n rule: bitlen.induct)
  case (1 n)
  show ?case
  proof (cases "n = 1")
    case True
    have "bitlen 1 = 1 + bitlen 0" by (subst bitlen.simps) simp
    also have "bitlen 0 = 0" by (subst bitlen.simps) simp
    finally show ?thesis using True by simp
  next
    case False
    with "1.prems" have h: "0 < n div 2" by simp
    with "1.IH" "1.prems" have IH: "1 \<le> bitlen (n div 2)"
        "2 ^ nat (bitlen (n div 2) - 1) \<le> n div 2" "n div 2 < 2 ^ nat (bitlen (n div 2))"
      by simp_all
    have b: "bitlen n = 1 + bitlen (n div 2)" using "1.prems" by (subst bitlen.simps) simp
    from IH(1) have s: "nat (bitlen (n div 2)) = Suc (nat (bitlen (n div 2) - 1))" by simp
    have lo: "(2::int) ^ nat (bitlen (n div 2)) \<le> n"
      using IH(2) unfolding s by simp
    have hi: "n < 2 * 2 ^ nat (bitlen (n div 2))"
      using IH(3) by simp
    from IH(1) have "nat (1 + bitlen (n div 2)) = Suc (nat (bitlen (n div 2)))" by simp
    with lo hi IH(1) show ?thesis unfolding b by simp
  qed
qed

lemma round_half_even_of_int: "round_half_even (of_int k) = k"
  by (simp add: round_half_even_def)

lemma ilog2_of_nat:
  assumes "0 < n"
  shows "ilog2 (of_nat n) = bitlen (int n) - 1"
proof -
  have q: "quotient_of (of_nat n) = (int n, 1)" by (rule quotient_of_rat_of_nat)
  from bitlen_bounds [of "int n"] assms
  have b: "1 \<le> bitlen (int n)" "2 ^ nat (bitlen (int n) - 1) \<le> int n" by simp_all
  have "bitlen 1 = 1 + bitlen 0" by (subst bitlen.simps) simp
  also have "bitlen 0 = 0" by (subst bitlen.simps) simp
  finally have one: "bitlen 1 = 1" by simp
  from b(2) have "(of_int (2 ^ nat (bitlen (int n) - 1)) :: rat) \<le> of_int (int n)"
    by (rule of_int_le_iff [THEN iffD2])
  then have "pow2 (bitlen (int n) - 1) \<le> of_nat n"
    using b(1) by (simp add: pow2_def)
  then show ?thesis
    by (simp add: ilog2_def q one Let_def)
qed

lemma round_double_of_nat:
  assumes "n < 2 ^ 53"
  shows "round_double (of_nat n) = Fin (of_nat n)"
proof (cases "n = 0")
  case True
  then show ?thesis by (simp add: round_double_def)
next
  case False
  then have pos: "0 < n" by simp
  define d where "d = bitlen (int n) - 1"
  from bitlen_bounds [of "int n"] pos
  have b: "0 \<le> d" "2 ^ nat d \<le> int n" unfolding d_def by simp_all
  have "d < 53"
  proof (rule ccontr)
    assume "\<not> d < 53"
    then have "53 \<le> nat d" by simp
    then have "(2::int) ^ 53 \<le> 2 ^ nat d" by (intro power_increasing) simp_all
    from this b(2) have "(2::int) ^ 53 \<le> int n" by (rule order_trans)
    moreover from assms have "int n < 2 ^ 53"
      by (metis of_nat_less_iff of_nat_numeral of_nat_power)
    ultimately show False by simp
  qed
  define k where "k = nat (52 - d)"
  have e: "max (ilog2 (of_nat n)) (- 1022) = d"
    using ilog2_of_nat [OF pos] b(1) by (simp add: d_def)
  have u: "pow2 (d - 52) = 1 / 2 ^ k"
    using \<open>d < 53\<close> by (cases "d = 52") (simp_all add: pow2_def k_def)
  have m: "round_half_even (of_nat n * 2 ^ k) = int n * 2 ^ k"
  proof -
    have "(of_nat n :: rat) * 2 ^ k = of_int (int n * 2 ^ k)" by simp
    then show ?thesis by (simp only: round_half_even_of_int)
  qed
  have a: "\<bar>of_nat n :: rat\<bar> = of_nat n" by simp
  show ?thesis
    using pos \<open>d < 53\<close>
    by (simp add: round_double_def Let_def e u m a)
qed

lemma to_number_exact: "n < 2 ^ 53 \<Longrightarrow> to_number n = Fin (of_nat n)"
  by (simp add: to_number_def round_double_of_nat)

lemma reduce_sum_exact:
  "a + sum_list ms < 2 ^ 53 \<Longrightarrow>
     foldl (\<lambda>sum m. num_add sum (to_number m)) (Fin (of_nat a)) ms = Fin (of_nat (a + sum_list ms))"
proof (induction ms arbitrary: a)
  case Nil
  then show ?case by simp
next
  case (Cons m ms)
  then have m: "m < 2 ^ 53" and am: "a + m < 2 ^ 53" and rest: "(a + m) + sum_list ms < 2 ^ 53"
    by simp_all
  have "num_add (Fin (of_nat a)) (to_number m) = Fin (of_nat (a + m))"
    using round_double_of_nat [OF am] by (simp add: to_number_exact [OF m])
  with Cons.IH [OF rest] show ?case by (simp add: add.assoc)
qed

text \<open>The result of rounding is never \<open>NaN\<close>.\<close>

lemma round_double_not_NaN: "round_double x \<noteq> NaN"
  by (simp add: round_double_def Let_def)

subsection \<open>The scorer\<close>

lemma fuzzyMatchScore_exact_inputs:
  assumes "length src < 2 ^ 53" "length ms < 2 ^ 53" "sum_list ms < 2 ^ 53"
  shows "fuzzyMatchScore src ms =
     num_div (Fin (of_nat (length ms)))
       (num_sub (Fin (of_nat (sum_list ms)))
          (num_div (Fin (of_nat (length ms))) (Fin (of_nat (length src)))))"
proof -
  have "foldl (\<lambda>sum m. num_add sum (to_number m)) (Fin (of_nat 0)) ms = Fin (of_nat (0 + sum_list ms))"
    using assms(3) by (intro reduce_sum_exact) simp
  then show ?thesis
    using assms by (simp add: fuzzyMatchScore_def Let_def to_number_exact)
qed

text \<open>
  C5 (amended): for a source of length \<open>L < 2 ^ 53\<close> and \<open>n < 2 ^ 53\<close> matched positions
  of sum \<open>S < 2 ^ 53\<close>, \<open>fuzzyMatchScore\<close> is \<open>n / (S - n / L)\<close> evaluated in IEEE
  double arithmetic on the exact integers \<open>n\<close>, \<open>S\<close> and \<open>L\<close>: the quotient \<open>n / L\<close>,
  the difference and the final quotient are each rounded to the nearest double (and a
  division by zero gives \<open>NaN\<close> or an infinity). With no matched position the score is
  \<open>NaN\<close>.
\<close>

theorem fuzzyMatchScore_formula:
  "(length src < 2 ^ 53 \<and> length ms < 2 ^ 53 \<and> sum_list ms < 2 ^ 53 \<longrightarrow>
      fuzzyMatchScore src ms =
        num_div (Fin (of_nat (length ms)))
          (num_sub (Fin (of_nat (sum_list ms)))
             (num_div (Fin (of_nat (length ms))) (Fin (of_nat (length src))))))
   \<and> (ms = [] \<longrightarrow> fuzzyMatchScore src ms = NaN)"
proof (intro conjI impI)
  assume "length src < 2 ^ 53 \<and> length ms < 2 ^ 53 \<and> sum_list ms < 2 ^ 53"
  then show "fuzzyMatchScore src ms =
        num_div (Fin (of_nat (length ms)))
          (num_sub (Fin (of_nat (sum_list ms)))
             (num_div (Fin (of_nat (length ms))) (Fin (of_nat (length src)))))"
    by (intro fuzzyMatchScore_exact_inputs) simp_all
next
  assume empty: "ms = []"
  have zero: "to_number 0 = Fin 0" by (simp add: to_number_def round_double_def)
  have "num_div (Fin 0) (num_sub (Fin 0) (num_div (Fin 0) l)) = NaN" if "l \<noteq> NaN" for l
    using that by (cases l) (simp_all add: round_double_def)
  moreover have "to_number (length src) \<noteq> NaN"
    by (simp add: to_number_def round_double_not_NaN)
  ultimately show "fuzzyMatchScore src ms = NaN"
    using empty by (simp add: fuzzyMatchScore_def Let_def zero)
qed

theorem fuzzyMatchScore_formula_witness:
  "length (js ''getText'') < 2 ^ 53 \<and> length [3, 4, 5, 6 :: nat] < 2 ^ 53
   \<and> sum_list [3, 4, 5, 6 :: nat] < 2 ^ 53
   \<and> fuzzyMatchScore (js ''getText'') [3, 4, 5, 6]
       = num_div (Fin 4) (num_sub (Fin 18) (num_div (Fin 4) (Fin 7)))
   \<and> num_div (Fin 4) (num_sub (Fin 18) (num_div (Fin 4) (Fin 7)))
       = Fin (1033613029232573 / 4503599627370496)
   \<and> fuzzyMatchScore (js ''x'') [] = NaN"
proof -
  have v: "num_div (Fin 4) (num_sub (Fin 18) (num_div (Fin 4) (Fin 7)))
       = Fin (1033613029232573 / 4503599627370496)"
    by code_simp
  have h: "length (js ''getText'') < 2 ^ 53 \<and> length [3, 4, 5, 6 :: nat] < 2 ^ 53
      \<and> sum_list [3, 4, 5, 6 :: nat] < 2 ^ 53"
    by (simp add: js_def)
  from fuzzyMatchScore_formula [where src = "js ''getText''" and ms = "[3, 4, 5, 6]"] h
  have "fuzzyMatchScore (js ''getText'') [3, 4, 5, 6] =
        num_div (Fin (of_nat (length [3, 4, 5, 6 :: nat])))
          (num_sub (Fin (of_nat (sum_list [3, 4, 5, 6 :: nat])))
             (num_div (Fin (of_nat (length [3, 4, 5, 6 :: nat]))) (Fin (of_nat (length (js ''getText''))))))"
    by blast
  then have s: "fuzzyMatchScore (js ''getText'') [3, 4, 5, 6]
       = num_div (Fin 4) (num_sub (Fin 18) (num_div (Fin 4) (Fin 7)))"
    by (simp add: js_def del: num_div.simps num_sub.simps)
  from fuzzyMatchScore_formula [where src = "js ''x''" and ms = "[]"]
  have n: "fuzzyMatchScore (js ''x'') [] = NaN" by blast
  from h s v n show ?thesis by blast
qed

text \<open>
  C5 as stated fails: for the source \<open>getText\<close> and the positions \<open>[3, 4, 5, 6]\<close> the
  score is the double \<open>0.2295081967213115\<close>, not the rational \<open>4 / (18 - 4 / 7) = 14 / 61\<close>.
\<close>

theorem fuzzyMatchScore_not_exact_counterexample:
  "fuzzyMatchScore (js ''getText'') [3, 4, 5, 6] = Fin (1033613029232573 / 4503599627370496)
   \<and> fuzzyMatchScore (js ''getText'') [3, 4, 5, 6]
       \<noteq> Fin (of_nat (length [3, 4, 5, 6 :: nat])
              / (of_nat (sum_list [3, 4, 5, 6 :: nat])
                 - of_nat (length [3, 4, 5, 6 :: nat]) / of_nat (length (js ''getText''))))"
proof -
  have "fuzzyMatchScore (js ''getText'') [3, 4, 5, 6] = Fin (1033613029232573 / 4503599627370496)"
    by code_simp
  then show ?thesis by (simp add: js_def)
qed

subsection \<open>The orchestrator\<close>

text \<open>
  C6: \<open>fuzzyMatch\<close> runs the token matcher first. If its score is \<open>> 0\<close> the result
  is that score times \<open>tokenScoreBias\<close> (10 when the option is absent) with the token
  matcher's positions unchanged; otherwise the result is the wildcard matcher's result.
\<close>

theorem fuzzyMatch_orchestration:
  "(num_gt (score (fuzzyMatchByTokens query src)) (Fin 0) \<longrightarrow>
      score (fuzzyMatch query src options)
        = num_mul (score (fuzzyMatchByTokens query src))
            (case tokenScoreBias options of None \<Rightarrow> Fin 10 | Some b \<Rightarrow> b)
      \<and> matches (fuzzyMatch query src options) = matches (fuzzyMatchByTokens query src))
   \<and> (\<not> num_gt (score (fuzzyMatchByTokens query src)) (Fin 0) \<longrightarrow>
        fuzzyMatch query src options = fuzzyMatchByWildcard query src)"
  by (simp add: fuzzyMatch_def bias_of_def Let_def)

theorem fuzzyMatch_orchestration_witness:
  "num_gt (score (fuzzyMatchByTokens (js ''gt'') (js ''getText''))) (Fin 0)
   \<and> fuzzyMatch (js ''gt'') (js ''getText'') \<lparr>tokenScoreBias = None\<rparr>
       = \<lparr>score = Fin (2074026144183781 / 281474976710656), matches = [0, 3]\<rparr>
   \<and> fuzzyMatch (js ''gt'') (js ''getText'') \<lparr>tokenScoreBias = Some (Fin 2)\<rparr>
       = \<lparr>score = Fin (6636883661388099 / 4503599627370496), matches = [0, 3]\<rparr>
   \<and> \<not> num_gt (score (fuzzyMatchByTokens (js ''text'') (js ''batchExtract''))) (Fin 0)
   \<and> fuzzyMatch (js ''text'') (js ''batchExtract'') \<lparr>tokenScoreBias = None\<rparr>
       = \<lparr>score = Fin (7327890919111315 / 36028797018963968), matches = [2, 5, 6, 7]\<rparr>"
proof -
  have t: "fuzzyMatchByTokens (js ''gt'') (js ''getText'')
      = \<lparr>score = Fin (6636883661388099 / 9007199254740992), matches = [0, 3]\<rparr>"
    by code_simp
  have f: "fuzzyMatchByTokens (js ''text'') (js ''batchExtract'') = \<lparr>score = Fin 0, matches = []\<rparr>"
    by code_simp
  have w: "fuzzyMatchByWildcard (js ''text'') (js ''batchExtract'')
      = \<lparr>score = Fin (7327890919111315 / 36028797018963968), matches = [2, 5, 6, 7]\<rparr>"
    by code_simp
  have m10: "num_mul (Fin (6636883661388099 / 9007199254740992)) (Fin 10)
      = Fin (2074026144183781 / 281474976710656)"
    by code_simp
  have m2: "num_mul (Fin (6636883661388099 / 9007199254740992)) (Fin 2)
      = Fin (6636883661388099 / 4503599627370496)"
    by code_simp
  have r1: "fuzzyMatch (js ''gt'') (js ''getText'') \<lparr>tokenScoreBias = None\<rparr>
       = \<lparr>score = Fin (2074026144183781 / 281474976710656), matches = [0, 3]\<rparr>"
    using fuzzyMatch_orchestration [of "js ''gt''" "js ''getText''" "\<lparr>tokenScoreBias = None\<rparr>"]
    by (simp add: t m10 del: num_mul.simps)
  have r2: "fuzzyMatch (js ''gt'') (js ''getText'') \<lparr>tokenScoreBias = Some (Fin 2)\<rparr>
       = \<lparr>score = Fin (6636883661388099 / 4503599627370496), matches = [0, 3]\<rparr>"
    using fuzzyMatch_orchestration [of "js ''gt''" "js ''getText''" "\<lparr>tokenScoreBias = Some (Fin 2)\<rparr>"]
    by (simp add: t m2 del: num_mul.simps)
  have r3: "fuzzyMatch (js ''text'') (js ''batchExtract'') \<lparr>tokenScoreBias = None\<rparr>
       = \<lparr>score = Fin (7327890919111315 / 36028797018963968), matches = [2, 5, 6, 7]\<rparr>"
    using fuzzyMatch_orchestration [of "js ''text''" "js ''batchExtract''" "\<lparr>tokenScoreBias = None\<rparr>"]
    by (simp add: f w)
  show ?thesis
    by (simp only: r1 r2 r3 t f) simp
qed


subsection \<open>Scores that are not positive\<close>

text \<open>
  C9: the query \<open>g\<close> is a subsequence of the candidate \<open>go\<close> and both matchers return
  the position 0, but the score is \<open>1 / (0 - 1/2) = -2\<close>; \<open>fuzzyMatch\<close> returns this
  negative score and \<open>fuzzySearch\<close> leaves the candidate out.
\<close>

theorem negative_score_dropped:
  "subseq (normalize_query (js ''g'')) (toLowerCase (js ''go''))
   \<and> matches (fuzzyMatchByTokens (js ''g'') (js ''go'')) = [0]
   \<and> matches (fuzzyMatchByWildcard (js ''g'') (js ''go'')) = [0]
   \<and> fuzzyMatchScore (js ''go'') [0] = Fin (- 2)
   \<and> fuzzyMatch (js ''g'') (js ''go'') \<lparr>tokenScoreBias = None\<rparr> = \<lparr>score = Fin (- 2), matches = [0]\<rparr>
   \<and> fuzzySearch (js ''g'') [js ''go''] \<lparr>tokenScoreBias = None\<rparr> = []
   \<and> map sourceIndex (fuzzySearch (js ''g'') [js ''go'', js ''ago''] \<lparr>tokenScoreBias = None\<rparr>) = [1]"
  by code_simp

text \<open>
  C1: the invariant "score is 0 exactly when matches is empty, and a non-empty matches
  has a score \<open>> 0\<close>" does not hold of \<open>fuzzyMatch\<close>: \<open>g\<close> against \<open>go\<close> gives the
  matches \<open>[0]\<close> with the score \<open>-2\<close>, and the empty query gives empty matches with
  the score \<open>NaN\<close>.
\<close>

theorem match_invariant_fails:
  "fuzzyMatch (js ''g'') (js ''go'') \<lparr>tokenScoreBias = None\<rparr> = \<lparr>score = Fin (- 2), matches = [0]\<rparr>
   \<and> fuzzyMatch (js '''') (js ''abc'') \<lparr>tokenScoreBias = None\<rparr> = \<lparr>score = NaN, matches = []\<rparr>"
  by code_simp

text \<open>
  C2: a positive score does not make the matches strictly increasing. On a mismatch the
  token matcher takes the next match of the regular expression, whose \<open>lastIndex\<close> does
  not follow the cursor; after the prefix \<open>get\<close> of \<open>getText\<close> has matched, the first
  token found is \<open>get\<close> itself, the cursor goes back to 0 and the same three positions
  are pushed again. The score is the double \<open>11.666666666666664\<close>.
\<close>

theorem match_not_increasing:
  "fuzzyMatch (js ''getget'') (js ''getText'') \<lparr>tokenScoreBias = None\<rparr>
     = \<lparr>score = Fin (1641937364145493 / 140737488355328), matches = [0, 1, 2, 0, 1, 2]\<rparr>
   \<and> num_gt (score (fuzzyMatch (js ''getget'') (js ''getText'') \<lparr>tokenScoreBias = None\<rparr>)) (Fin 0)
   \<and> \<not> sorted_wrt (<) (matches (fuzzyMatch (js ''getget'') (js ''getText'') \<lparr>tokenScoreBias = None\<rparr>))"
proof -
  have "fuzzyMatch (js ''getget'') (js ''getText'') \<lparr>tokenScoreBias = None\<rparr>
     = \<lparr>score = Fin (1641937364145493 / 140737488355328), matches = [0, 1, 2, 0, 1, 2]\<rparr>"
    by code_simp
  then show ?thesis by simp
qed

text \<open>What does hold on degenerate inputs: a query with a letter never matches the empty source.\<close>

lemma lower_unit_nonempty: "lower_unit u \<noteq> []" "[] \<noteq> lower_unit u"
  by (cases u; simp)+

lemma fuzzyMatch_empty_source:
  "normalize_query query \<noteq> [] \<Longrightarrow>
     fuzzyMatch query [] options = \<lparr>score = Fin 0, matches = []\<rparr>"
  by (cases "normalize_query query")
     (simp_all add: fuzzyMatch_def fuzzyMatchByTokens_def fuzzyMatchByWildcard_def
        toLowerCase_def indexOf_def Let_def lower_unit_nonempty)

text \<open>
  C3: the empty and the white-space query do not give the score 0 but \<open>NaN\<close> (with
  empty matches), and a query longer than the source can match: \<open>xaxa\<close> against \<open>xab\<close>
  has the positive score \<open>59.99999999999999\<close>.
\<close>

theorem match_degenerate_inputs:
  "fuzzyMatch (js '''') (js ''abc'') \<lparr>tokenScoreBias = None\<rparr> = \<lparr>score = NaN, matches = []\<rparr>
   \<and> fuzzyMatch (js ''  '') (js ''abc'') \<lparr>tokenScoreBias = None\<rparr> = \<lparr>score = NaN, matches = []\<rparr>
   \<and> length (normalize_query (js ''xaxa'')) > length (js ''xab'')
   \<and> fuzzyMatch (js ''xaxa'') (js ''xab'') \<lparr>tokenScoreBias = None\<rparr>
       = \<lparr>score = Fin (8444249301319679 / 140737488355328), matches = [0, 1, 0, 1]\<rparr>"
  by code_simp

subsection \<open>The wildcard matcher\<close>

lemma unit_at: "take (length [c]) (drop i s) = [c] \<longleftrightarrow> i < length s \<and> s ! i = c"
proof (cases "i < length s")
  case True
  then have "drop i s = s ! i # drop (Suc i) s" by (simp add: Cons_nth_drop_Suc)
  then show ?thesis using True by simp
next
  case False
  then show ?thesis by simp
qed

lemma indexOf_Some:
  assumes "indexOf s [c] fromIdx = Some i"
  shows "fromIdx \<le> i" "i < length s" "s ! i = c" "\<forall>j \<in> {fromIdx ..< i}. s ! j \<noteq> c"
proof -
  let ?lo = "min fromIdx (length s)"
  let ?xs = "[?lo ..< Suc (length s)]"
  from assms obtain k where k: "k < length ?xs"
      "take (length [c]) (drop (?xs ! k) s) = [c]" "i = ?xs ! k"
      "\<forall>j<k. take (length [c]) (drop (?xs ! j) s) \<noteq> [c]"
    unfolding indexOf_def find_Some_iff by blast
  from k(1) have ik: "?xs ! k = ?lo + k" by (simp del: upt_Suc)
  from k(2,3) have hit: "i < length s" "s ! i = c" by (simp_all only: unit_at)
  from hit(1) k(3) ik have lo: "?lo = fromIdx" by (simp add: min_def split: if_splits)
  with k(3) ik have i: "i = fromIdx + k" by simp
  show "fromIdx \<le> i" using i by simp
  show "i < length s" "s ! i = c" by (rule hit)+
  show "\<forall>j \<in> {fromIdx ..< i}. s ! j \<noteq> c"
  proof
    fix j assume "j \<in> {fromIdx ..< i}"
    then have j: "fromIdx \<le> j" "j < i" by simp_all
    then have jk: "j - fromIdx < k" using i by simp
    with k(4) have "take (length [c]) (drop (?xs ! (j - fromIdx)) s) \<noteq> [c]" by blast
    moreover have "?xs ! (j - fromIdx) = j"
      using j jk k(1) lo by (simp del: upt_Suc)
    ultimately have "take (length [c]) (drop j s) \<noteq> [c]" by simp
    then have "\<not> (j < length s \<and> s ! j = c)" using unit_at [of c j s] by blast
    with j hit(1) show "s ! j \<noteq> c" by simp
  qed
qed

lemma indexOf_None: "indexOf s [c] fromIdx = None \<longleftrightarrow> c \<notin> set (drop fromIdx s)"
proof -
  let ?xs = "[min fromIdx (length s) ..< Suc (length s)]"
  have "(\<exists>x. x \<in> set ?xs \<and> take (length [c]) (drop x s) = [c]) \<longleftrightarrow> c \<in> set (drop fromIdx s)"
  proof
    assume "\<exists>x. x \<in> set ?xs \<and> take (length [c]) (drop x s) = [c]"
    then obtain x where x: "x \<in> set ?xs" "x < length s" "s ! x = c"
      by (auto simp only: unit_at)
    then have "fromIdx \<le> x" by (simp add: min_def split: if_splits del: upt_Suc)
    with x have "drop fromIdx s ! (x - fromIdx) = c" "x - fromIdx < length (drop fromIdx s)"
      by simp_all
    then show "c \<in> set (drop fromIdx s)" by (metis nth_mem)
  next
    assume "c \<in> set (drop fromIdx s)"
    then obtain k where k: "k < length (drop fromIdx s)" "drop fromIdx s ! k = c"
      by (auto simp: in_set_conv_nth)
    then have "fromIdx + k < length s" "s ! (fromIdx + k) = c" by simp_all
    moreover from this have "fromIdx + k \<in> set ?xs" by (simp del: upt_Suc)
    ultimately have "fromIdx + k \<in> set ?xs \<and> take (length [c]) (drop (fromIdx + k) s) = [c]"
      by (simp only: unit_at simp_thms)
    then show "\<exists>x. x \<in> set ?xs \<and> take (length [c]) (drop x s) = [c]" by blast
  qed
  then show ?thesis unfolding indexOf_def find_None_iff by simp
qed

lemma subseq_skip_prefix:
  "c \<notin> set pre \<Longrightarrow> subseq (c # r) (pre @ c # post) \<longleftrightarrow> subseq r post"
  by (induction pre) auto

lemma drop_split_at:
  assumes "fromIdx \<le> i" "i < length s"
  shows "drop fromIdx s = take (i - fromIdx) (drop fromIdx s) @ s ! i # drop (i + 1) s"
proof -
  have "drop fromIdx s = take (i - fromIdx) (drop fromIdx s) @ drop (i - fromIdx) (drop fromIdx s)"
    by (rule append_take_drop_id [symmetric])
  moreover have "drop (i - fromIdx) (drop fromIdx s) = drop i s" using assms by simp
  moreover have "drop i s = s ! i # drop (i + 1) s" using assms by (simp add: Cons_nth_drop_Suc)
  ultimately show ?thesis by simp
qed

lemma indexOf_subseq:
  assumes "indexOf s [c] fromIdx = Some i"
  shows "subseq (c # r) (drop fromIdx s) \<longleftrightarrow> subseq r (drop (i + 1) s)"
proof -
  note io = indexOf_Some [OF assms]
  have notin: "c \<notin> set (take (i - fromIdx) (drop fromIdx s))"
  proof
    assume "c \<in> set (take (i - fromIdx) (drop fromIdx s))"
    then obtain k where k: "k < length (take (i - fromIdx) (drop fromIdx s))"
        "take (i - fromIdx) (drop fromIdx s) ! k = c"
      by (auto simp: in_set_conv_nth)
    then have "k < i - fromIdx" by simp
    then have "fromIdx + k \<in> {fromIdx ..< i}" by simp
    with io(4) have "s ! (fromIdx + k) \<noteq> c" by blast
    moreover have "take (i - fromIdx) (drop fromIdx s) ! k = s ! (fromIdx + k)"
      using \<open>k < i - fromIdx\<close> io(2) by simp
    ultimately show False using k(2) by simp
  qed
  have "drop fromIdx s = take (i - fromIdx) (drop fromIdx s) @ c # drop (i + 1) s"
    using drop_split_at [OF io(1) io(2)] io(3) by simp
  then show ?thesis
    using subseq_skip_prefix [OF notin, of r "drop (i + 1) s"] by simp
qed

lemma wildcard_loop_subseq:
  "\<forall>c \<in> set q. lower_unit c = [c] \<Longrightarrow>
     (wildcard_loop s q fromIdx ms \<noteq> None) \<longleftrightarrow> subseq q (drop fromIdx s)"
proof (induction q arbitrary: fromIdx ms)
  case Nil
  show ?case by simp
next
  case (Cons c rest)
  then have c: "lower_unit c = [c]" and rest: "\<forall>c \<in> set rest. lower_unit c = [c]" by simp_all
  show ?case
  proof (cases "indexOf s [c] fromIdx")
    case None
    then have "c \<notin> set (drop fromIdx s)" using indexOf_None [of s c fromIdx] by blast
    then have "\<not> subseq (c # rest) (drop fromIdx s)"
      using list_emb_set by fastforce
    with None c show ?thesis by simp
  next
    case (Some i)
    from indexOf_subseq [OF Some, of rest] Cons.IH [OF rest, of "i + 1" "ms @ [i]"] Some c
    show ?thesis by simp
  qed
qed

lemma wildcard_loop_greedy:
  "\<forall>c \<in> set q. lower_unit c = [c] \<Longrightarrow> wildcard_loop s q fromIdx ms = Some out \<Longrightarrow>
     \<exists>new. out = ms @ new \<and> leftmost_greedy s q fromIdx new"
proof (induction q arbitrary: fromIdx ms)
  case Nil
  then show ?case by simp
next
  case (Cons c rest)
  then have c: "lower_unit c = [c]" and rest: "\<forall>c \<in> set rest. lower_unit c = [c]" by simp_all
  from Cons.prems(2) c obtain i where i: "indexOf s [c] fromIdx = Some i"
      and rec: "wildcard_loop s rest (i + 1) (ms @ [i]) = Some out"
    by (auto split: option.splits)
  from Cons.IH [OF rest rec] obtain new where new: "out = (ms @ [i]) @ new"
      "leftmost_greedy s rest (i + 1) new" by blast
  note io = indexOf_Some [OF i]
  have "leftmost_greedy s (c # rest) fromIdx (i # new)"
    using io new(2) by simp
  with new(1) show ?case by (intro exI [of _ "i # new"]) simp
qed

lemma leftmost_greedy_bounds:
  "leftmost_greedy s q fromIdx ms \<Longrightarrow>
     length ms = length q \<and> (\<forall>m \<in> set ms. fromIdx \<le> m) \<and> sorted_wrt (<) ms
     \<and> list_all2 (\<lambda>m c. m < length s \<and> s ! m = c) ms q"
proof (induction q arbitrary: fromIdx ms)
  case Nil
  then show ?case by simp
next
  case (Cons c cs)
  then obtain m ms' where ms: "ms = m # ms'" and m: "fromIdx \<le> m" "m < length s" "s ! m = c"
      and rest: "leftmost_greedy s cs (m + 1) ms'"
    by (auto split: list.splits)
  from Cons.IH [OF rest] ms m show ?case by fastforce
qed

lemma toLowerCase_char_idem: "toLowerCase_char (toLowerCase_char c) = toLowerCase_char c"
proof -
  show ?thesis
  proof (cases "(65 \<le> (of_char c :: nat) \<and> (of_char c :: nat) \<le> 90)
                \<or> (192 \<le> (of_char c :: nat) \<and> (of_char c :: nat) \<le> 222 \<and> (of_char c :: nat) \<noteq> 215)")
    case True
    then have up: "toLowerCase_char c = char_of ((of_char c :: nat) + 32)"
      by (simp add: toLowerCase_char_def Let_def)
    have "(of_char c :: nat) + 32 < 256"
      using True by auto
    then have "(of_char (char_of ((of_char c :: nat) + 32) :: char) :: nat) = of_char c + 32"
      by (simp only: of_char_of mod_less)
    then show ?thesis
      using True unfolding up by (auto simp add: toLowerCase_char_def Let_def)
  next
    case False
    then have "toLowerCase_char c = c"
      by (auto simp add: toLowerCase_char_def Let_def)
    then show ?thesis by simp
  qed
qed

lemma lower_unit_fixed: "c \<in> set (lower_unit u) \<Longrightarrow> lower_unit c = [c]"
proof (cases u)
  case (Latin1 ch)
  assume "c \<in> set (lower_unit u)"
  with Latin1 show ?thesis by (simp add: toLowerCase_char_idem)
next
  case U0130
  have "toLowerCase_char CHR ''i'' = CHR ''i''" by (simp add: toLowerCase_char_def)
  moreover assume "c \<in> set (lower_unit u)"
  ultimately show ?thesis using U0130 by auto
next
  case U0307
  assume "c \<in> set (lower_unit u)"
  with U0307 show ?thesis by simp
qed

lemma normalize_query_lower: "\<forall>c \<in> set (normalize_query query). lower_unit c = [c]"
  by (auto simp: normalize_query_def strip_spaces_def toLowerCase_def dest: lower_unit_fixed)

lemma wildcard_matches_cases:
  "(wildcard_loop (toLowerCase src) (normalize_query query) 0 [] = None
      \<and> \<not> subseq (normalize_query query) (toLowerCase src)
      \<and> fuzzyMatchByWildcard query src = \<lparr>score = Fin 0, matches = []\<rparr>)
   \<or> (\<exists>ms. wildcard_loop (toLowerCase src) (normalize_query query) 0 [] = Some ms
      \<and> subseq (normalize_query query) (toLowerCase src)
      \<and> fuzzyMatchByWildcard query src = \<lparr>score = fuzzyMatchScore src ms, matches = ms\<rparr>
      \<and> leftmost_greedy (toLowerCase src) (normalize_query query) 0 ms)"
proof (cases "wildcard_loop (toLowerCase src) (normalize_query query) 0 []")
  case None
  with wildcard_loop_subseq [where q = "normalize_query query" and s = "toLowerCase src"
      and fromIdx = 0 and ms = "[]", OF normalize_query_lower]
  show ?thesis by (simp add: fuzzyMatchByWildcard_def)
next
  case (Some ms)
  with wildcard_loop_subseq [where q = "normalize_query query" and s = "toLowerCase src"
      and fromIdx = 0 and ms = "[]", OF normalize_query_lower]
  have sub: "subseq (normalize_query query) (toLowerCase src)"
    by simp
  from wildcard_loop_greedy [OF normalize_query_lower Some]
  have "leftmost_greedy (toLowerCase src) (normalize_query query) 0 ms"
    by simp
  with Some sub show ?thesis by (simp add: fuzzyMatchByWildcard_def)
qed
lemma matches_wildcard:
  "matches (fuzzyMatchByWildcard query src) =
     (case wildcard_loop (toLowerCase src) (normalize_query query) 0 [] of None \<Rightarrow> [] | Some ms \<Rightarrow> ms)"
  by (simp add: fuzzyMatchByWildcard_def split: option.splits)
text \<open>
  C7 (amended): the wildcard matcher returns non-empty matches exactly when the
  normalised query is not empty and is a subsequence of the lower-cased source; whenever
  the normalised query is a subsequence, the positions returned are its leftmost-greedy
  embedding into the lower-cased source and are strictly increasing. (For the empty
  normalised query, which is a subsequence of every source, the matches are empty.)
\<close>

theorem wildcard_subsequence:
  "(matches (fuzzyMatchByWildcard query src) \<noteq> []
      \<longleftrightarrow> normalize_query query \<noteq> [] \<and> subseq (normalize_query query) (toLowerCase src))
   \<and> (subseq (normalize_query query) (toLowerCase src) \<longrightarrow>
        leftmost_greedy (toLowerCase src) (normalize_query query) 0
          (matches (fuzzyMatchByWildcard query src))
        \<and> sorted_wrt (<) (matches (fuzzyMatchByWildcard query src)))"
proof -
  from wildcard_matches_cases [of src query] show ?thesis
  proof (elim disjE conjE exE)
    assume "\<not> subseq (normalize_query query) (toLowerCase src)"
      "fuzzyMatchByWildcard query src = \<lparr>score = Fin 0, matches = []\<rparr>"
    then show ?thesis by simp
  next
    fix ms
    assume sub: "subseq (normalize_query query) (toLowerCase src)"
      and res: "fuzzyMatchByWildcard query src = \<lparr>score = fuzzyMatchScore src ms, matches = ms\<rparr>"
      and gr: "leftmost_greedy (toLowerCase src) (normalize_query query) 0 ms"
    from leftmost_greedy_bounds [OF gr]
    have "length ms = length (normalize_query query)" "sorted_wrt (<) ms" by simp_all
    with sub res gr show ?thesis by auto
  qed
qed

theorem wildcard_subsequence_witness:
  "normalize_query (js ''text'') \<noteq> []
   \<and> subseq (normalize_query (js ''text'')) (toLowerCase (js ''batchExtract''))
   \<and> matches (fuzzyMatchByWildcard (js ''text'') (js ''batchExtract'')) = [2, 5, 6, 7]
   \<and> leftmost_greedy (toLowerCase (js ''batchExtract'')) (normalize_query (js ''text'')) 0
        (matches (fuzzyMatchByWildcard (js ''text'') (js ''batchExtract'')))
   \<and> sorted_wrt (<) (matches (fuzzyMatchByWildcard (js ''text'') (js ''batchExtract'')))"
proof -
  have q: "normalize_query (js ''text'') = js ''text''" by code_simp
  have s: "toLowerCase (js ''batchExtract'') = js ''batchextract''" by code_simp
  have sub: "subseq (normalize_query (js ''text'')) (toLowerCase (js ''batchExtract''))"
    unfolding q s by (simp add: js_def)
  have m: "matches (fuzzyMatchByWildcard (js ''text'') (js ''batchExtract'')) = [2, 5, 6, 7]"
    unfolding matches_wildcard by code_simp
  have ne: "normalize_query (js ''text'') \<noteq> []" unfolding q by (simp add: js_def)
  from wildcard_subsequence [of "js ''text''" "js ''batchExtract''"] sub m ne show ?thesis
    by simp
qed
text \<open>
  C7 as stated fails for the empty query: it is a subsequence of the source \<open>a\<close>, and
  the matches are empty.
\<close>

theorem wildcard_empty_query_counterexample:
  "\<not> (matches (fuzzyMatchByWildcard (js '''') (js ''a'')) \<noteq> []
        \<longleftrightarrow> subseq (normalize_query (js '''')) (toLowerCase (js ''a'')))"
proof -
  have q: "normalize_query (js '''') = []" by code_simp
  have m: "matches (fuzzyMatchByWildcard (js '''') (js ''a'')) = []"
    unfolding matches_wildcard by code_simp
  show ?thesis unfolding q m by simp
qed
text \<open>The wildcard matcher never matches a query longer than the lower-cased source.\<close>

lemma wildcard_longer_query:
  assumes "length (toLowerCase src) < length (normalize_query query)"
  shows "fuzzyMatchByWildcard query src = \<lparr>score = Fin 0, matches = []\<rparr>"
proof -
  from wildcard_matches_cases [of src query] show ?thesis
  proof (elim disjE conjE exE)
    assume "fuzzyMatchByWildcard query src = \<lparr>score = Fin 0, matches = []\<rparr>"
    then show ?thesis .
  next
    fix ms
    assume "leftmost_greedy (toLowerCase src) (normalize_query query) 0 ms"
    from leftmost_greedy_bounds [OF this]
    have len: "length ms = length (normalize_query query)"
      and incr: "sorted_wrt (<) ms"
      and all: "list_all2 (\<lambda>m c. m < length (toLowerCase src) \<and> toLowerCase src ! m = c)
                  ms (normalize_query query)"
      by simp_all
    from all have "\<forall>m \<in> set ms. m < length (toLowerCase src)"
      by (auto simp: list_all2_conv_all_nth in_set_conv_nth)
    then have "set ms \<subseteq> {..< length (toLowerCase src)}" by auto
    then have "card (set ms) \<le> length (toLowerCase src)"
      using card_mono [of "{..< length (toLowerCase src)}" "set ms"] by simp
    moreover from incr have "distinct ms" by (simp add: strict_sorted_iff)
    then have "card (set ms) = length ms" by (rule distinct_card)
    ultimately have "length ms \<le> length (toLowerCase src)" by simp
    with len assms show ?thesis by simp
  qed
qed
subsection \<open>Positions of a successful match\<close>

text \<open>
  C8: the positions of a successful match need not be indices into the source. The
  wildcard matcher searches \<open>source.toLowerCase()\<close> and records the positions found
  there; lower-casing \<open>U+0130\<close> gives two code units, so for the source
  \<open>U+0130 a x\<close> of length 3 the query \<open>x\<close> is found at position 3 of the lower-cased
  source, and \<open>fuzzyMatch\<close> returns the matches \<open>[3]\<close> with the score \<open>0.375\<close>.
\<close>

theorem match_position_out_of_range:
  "fuzzyMatch (js ''x'') [U0130, Latin1 CHR ''a'', Latin1 CHR ''x''] \<lparr>tokenScoreBias = None\<rparr>
     = \<lparr>score = Fin (3 / 8), matches = [3]\<rparr>
   \<and> num_gt (score (fuzzyMatch (js ''x'') [U0130, Latin1 CHR ''a'', Latin1 CHR ''x'']
         \<lparr>tokenScoreBias = None\<rparr>)) (Fin 0)
   \<and> length [U0130, Latin1 CHR ''a'', Latin1 CHR ''x''] = 3
   \<and> toLowerCase [U0130, Latin1 CHR ''a'', Latin1 CHR ''x'']
       = [Latin1 CHR ''i'', U0307, Latin1 CHR ''a'', Latin1 CHR ''x'']
   \<and> \<not> list_all (\<lambda>m. m < length [U0130, Latin1 CHR ''a'', Latin1 CHR ''x''])
         (matches (fuzzyMatch (js ''x'') [U0130, Latin1 CHR ''a'', Latin1 CHR ''x'']
            \<lparr>tokenScoreBias = None\<rparr>))"
proof -
  have "fuzzyMatch (js ''x'') [U0130, Latin1 CHR ''a'', Latin1 CHR ''x''] \<lparr>tokenScoreBias = None\<rparr>
     = \<lparr>score = Fin (3 / 8), matches = [3]\<rparr>"
    by code_simp
  moreover have "toLowerCase [U0130, Latin1 CHR ''a'', Latin1 CHR ''x'']
       = [Latin1 CHR ''i'', U0307, Latin1 CHR ''a'', Latin1 CHR ''x'']"
    by code_simp
  ultimately show ?thesis by simp
qed

text \<open>
  What does hold: each matcher pushes a position only where the lower-cased source character
  is the front query letter, once per letter. For a source without \<open>U+0130\<close>, on which
  lower-casing keeps every index, a match with a score \<open>> 0\<close> has one position for each
  character of the normalised query, every position is an index into the source, and
  the source character there, lower-cased, is the corresponding query character.
\<close>

lemma tokens_loop_sound:
  "tokens_loop src lastIndex cursor queue ms = Some out \<Longrightarrow>
     \<exists>new. out = ms @ new
       \<and> list_all2 (\<lambda>m c. m < length src \<and> lower_unit (src ! m) = [c]) new queue"
proof (induction src lastIndex cursor queue ms rule: tokens_loop.induct)
  case (1 src lastIndex cursor ms)
  then show ?case by simp
next
  case (2 src lastIndex cursor letter rest ms)
  from "2.prems" have inside: "cursor < length src"
    by (simp split: if_splits)
  show ?case
  proof (cases "[letter] = lower_unit (src ! cursor)")
    case True
    with "2.prems" inside
    have "tokens_loop src lastIndex (cursor + 1) rest (ms @ [cursor]) = Some out" by simp
    from "2.IH"(1) [OF _ True this] inside
    obtain new where "out = (ms @ [cursor]) @ new"
        "list_all2 (\<lambda>m c. m < length src \<and> lower_unit (src ! m) = [c]) new rest"
      by auto
    with True inside show ?thesis
      by (intro exI [of _ "cursor # new"]) simp
  next
    case False
    show ?thesis
    proof (cases "regex_exec src lastIndex")
      case None
      with "2.prems" inside False
      have "tokens_loop src 0 (length src) (letter # rest) ms = Some out" by simp
      from "2.IH"(2) [OF _ False None this] inside show ?thesis by simp
    next
      case (Some m)
      obtain idx e where m: "m = (idx, e)" by (cases m)
      with "2.prems" inside False Some
      have "tokens_loop src e idx (letter # rest) ms = Some out" by simp
      from "2.IH"(3) [OF _ False Some m [symmetric] this] inside show ?thesis by simp
    qed
  qed
qed

lemma tokens_matches_cases:
  "fuzzyMatchByTokens query src = \<lparr>score = Fin 0, matches = []\<rparr>
   \<or> list_all2 (\<lambda>m c. m < length src \<and> lower_unit (src ! m) = [c])
        (matches (fuzzyMatchByTokens query src)) (normalize_query query)"
proof (cases "tokens_loop src 0 0 (normalize_query query) []")
  case None
  then show ?thesis by (simp add: fuzzyMatchByTokens_def)
next
  case (Some ms)
  from tokens_loop_sound [OF Some] Some show ?thesis
    by (simp add: fuzzyMatchByTokens_def)
qed

lemma toLowerCase_pointwise:
  "U0130 \<notin> set src \<Longrightarrow>
     length (toLowerCase src) = length src
     \<and> (\<forall>m < length src. lower_unit (src ! m) = [toLowerCase src ! m])"
proof (induction src)
  case Nil
  show ?case by (simp add: toLowerCase_def)
next
  case (Cons u src)
  then have IH: "length (toLowerCase src) = length src"
      "\<forall>m < length src. lower_unit (src ! m) = [toLowerCase src ! m]"
    by simp_all
  from Cons.prems obtain v where v: "lower_unit u = [v]" by (cases u) simp_all
  have step: "toLowerCase (u # src) = v # toLowerCase src"
    by (simp add: toLowerCase_def v)
  show ?case
  proof (intro conjI allI impI)
    show "length (toLowerCase (u # src)) = length (u # src)" by (simp add: step IH(1))
  next
    fix m assume "m < length (u # src)"
    then show "lower_unit ((u # src) ! m) = [toLowerCase (u # src) ! m]"
      using IH(2) v by (cases m) (simp_all add: step)
  qed
qed

lemma wildcard_matches_sound:
  assumes "U0130 \<notin> set src"
  shows "fuzzyMatchByWildcard query src = \<lparr>score = Fin 0, matches = []\<rparr>
   \<or> list_all2 (\<lambda>m c. m < length src \<and> lower_unit (src ! m) = [c])
        (matches (fuzzyMatchByWildcard query src)) (normalize_query query)"
proof -
  note pw = toLowerCase_pointwise [OF assms]
  from wildcard_matches_cases [of src query] show ?thesis
  proof (elim disjE conjE exE)
    assume "fuzzyMatchByWildcard query src = \<lparr>score = Fin 0, matches = []\<rparr>"
    then show ?thesis by simp
  next
    fix ms
    assume res: "fuzzyMatchByWildcard query src = \<lparr>score = fuzzyMatchScore src ms, matches = ms\<rparr>"
      and gr: "leftmost_greedy (toLowerCase src) (normalize_query query) 0 ms"
    from leftmost_greedy_bounds [OF gr]
    have "list_all2 (\<lambda>m c. m < length (toLowerCase src) \<and> toLowerCase src ! m = c)
            ms (normalize_query query)" by simp
    then have "list_all2 (\<lambda>m c. m < length src \<and> lower_unit (src ! m) = [c])
            ms (normalize_query query)"
      by (rule list_all2_mono) (use pw in auto)
    with res show ?thesis by simp
  qed
qed

lemma match_positions_latin1:
  assumes "U0130 \<notin> set src" "num_gt (score (fuzzyMatch query src options)) (Fin 0)"
  shows "length (matches (fuzzyMatch query src options)) = length (normalize_query query)
    \<and> (\<forall>i < length (normalize_query query).
          matches (fuzzyMatch query src options) ! i < length src
          \<and> lower_unit (src ! (matches (fuzzyMatch query src options) ! i))
              = [normalize_query query ! i])"
proof -
  have "list_all2 (\<lambda>m c. m < length src \<and> lower_unit (src ! m) = [c])
          (matches (fuzzyMatch query src options)) (normalize_query query)"
  proof (cases "num_gt (score (fuzzyMatchByTokens query src)) (Fin 0)")
    case True
    then have "fuzzyMatchByTokens query src \<noteq> \<lparr>score = Fin 0, matches = []\<rparr>" by auto
    with tokens_matches_cases [of query src] True show ?thesis
      by (simp add: fuzzyMatch_def Let_def)
  next
    case False
    then have eq: "fuzzyMatch query src options = fuzzyMatchByWildcard query src"
      by (simp add: fuzzyMatch_def Let_def)
    with assms(2) have "fuzzyMatchByWildcard query src \<noteq> \<lparr>score = Fin 0, matches = []\<rparr>" by auto
    with wildcard_matches_sound [OF assms(1), of query] eq show ?thesis by simp
  qed
  then show ?thesis
    by (simp add: list_all2_conv_all_nth)
qed
subsection \<open>Search\<close>

lemma set_insert_by: "set (insert_by cmp x ys) = insert x (set ys)"
  by (induction ys) auto

lemma set_sort_by: "set (sort_by cmp xs) = set xs"
  unfolding sort_by_def by (induction xs) (simp_all add: set_insert_by)

lemma sorted_insert_by:
  assumes tot: "\<forall>a \<in> S. \<forall>b \<in> S. if cmp a b \<le> 0 then R a b else R b a"
    and trans: "\<forall>a \<in> S. \<forall>b \<in> S. \<forall>c \<in> S. R a b \<longrightarrow> R b c \<longrightarrow> R a c"
  shows "x \<in> S \<Longrightarrow> set ys \<subseteq> S \<Longrightarrow> sorted_wrt R ys \<Longrightarrow> sorted_wrt R (insert_by cmp x ys)"
proof (induction ys)
  case Nil
  show ?case by simp
next
  case (Cons y ys)
  from Cons.prems have mem: "x \<in> S" "y \<in> S" "set ys \<subseteq> S"
    and sorted: "\<forall>z \<in> set ys. R y z" "sorted_wrt R ys"
    by simp_all
  show ?case
  proof (cases "cmp x y \<le> 0")
    case True
    with tot mem have xy: "R x y" by auto
    have "\<forall>z \<in> set ys. R x z"
    proof
      fix z assume z: "z \<in> set ys"
      with sorted mem have "R y z" "z \<in> S" by auto
      with xy mem trans show "R x z" by blast
    qed
    with True xy sorted show ?thesis by simp
  next
    case False
    with tot mem have yx: "R y x" by auto
    from Cons.IH [OF mem(1) mem(3) sorted(2)]
    have "sorted_wrt R (insert_by cmp x ys)" .
    with False yx sorted show ?thesis by (simp add: set_insert_by)
  qed
qed

lemma sorted_sort_by:
  assumes tot: "\<forall>a \<in> S. \<forall>b \<in> S. if cmp a b \<le> 0 then R a b else R b a"
    and trans: "\<forall>a \<in> S. \<forall>b \<in> S. \<forall>c \<in> S. R a b \<longrightarrow> R b c \<longrightarrow> R a c"
  shows "set xs \<subseteq> S \<Longrightarrow> sorted_wrt R (sort_by cmp xs)"
proof (induction xs)
  case Nil
  show ?case by (simp add: sort_by_def)
next
  case (Cons x xs)
  then have s: "sorted_wrt R (sort_by cmp xs)" by simp
  have sub: "set (sort_by cmp xs) \<subseteq> S" using Cons.prems by (simp add: set_sort_by)
  have x: "x \<in> S" using Cons.prems by simp
  from sorted_insert_by [OF tot trans x sub s] show ?case by (simp add: sort_by_def)
qed

text \<open>On numbers that are not \<open>NaN\<close>, \<open>>\<close> and \<open>===\<close> behave as a linear order.\<close>

lemma positive_not_NaN: "num_gt x (Fin 0) \<Longrightarrow> x \<noteq> NaN"
  by (cases x) simp_all

lemma num_trichotomy: "x \<noteq> NaN \<Longrightarrow> y \<noteq> NaN \<Longrightarrow> num_gt x y \<or> num_eq x y \<or> num_gt y x"
  by (cases x; cases y) auto

lemma num_eq_sym: "num_eq x y \<Longrightarrow> num_eq y x"
  by (cases x; cases y) auto

lemma num_gt_trans: "num_gt x y \<Longrightarrow> num_gt y z \<Longrightarrow> num_gt x z"
  by (cases x; cases y; cases z) auto

lemma num_eq_trans: "num_eq x y \<Longrightarrow> num_eq y z \<Longrightarrow> num_eq x z"
  by (cases x; cases y; cases z) auto

lemma num_gt_eq_trans: "num_gt x y \<Longrightarrow> num_eq y z \<Longrightarrow> num_gt x z"
  by (cases x; cases y; cases z) auto

lemma num_eq_gt_trans: "num_eq x y \<Longrightarrow> num_gt y z \<Longrightarrow> num_gt x z"
  by (cases x; cases y; cases z) auto

lemma compare_results_total:
  assumes "num_gt (score a) (Fin 0)" "num_gt (score b) (Fin 0)"
  shows "if compare_results a b \<le> 0 then ranked_before a b else ranked_before b a"
proof -
  from assms have "score a \<noteq> NaN" "score b \<noteq> NaN" by (simp_all add: positive_not_NaN)
  from num_trichotomy [OF this] consider
      (eq) "num_eq (score a) (score b)"
    | (gt) "\<not> num_eq (score a) (score b)" "num_gt (score a) (score b)"
    | (lt) "\<not> num_eq (score a) (score b)" "\<not> num_gt (score a) (score b)" "num_gt (score b) (score a)"
    by blast
  then show ?thesis
  proof cases
    case eq
    then have "num_eq (score b) (score a)" by (rule num_eq_sym)
    with eq show ?thesis
      by (cases "map code (source b) < map code (source a)")
         (simp_all add: compare_results_def ranked_before_def less_imp_le not_less)
  next
    case gt
    then show ?thesis by (simp add: compare_results_def ranked_before_def)
  next
    case lt
    then show ?thesis by (simp add: compare_results_def ranked_before_def)
  qed
qed

lemma ranked_before_trans:
  assumes "ranked_before a b" "ranked_before b c"
  shows "ranked_before a c"
proof -
  from assms consider
      (gg) "num_gt (score a) (score b)" "num_gt (score b) (score c)"
    | (ge) "num_gt (score a) (score b)" "num_eq (score b) (score c)"
    | (eg) "num_eq (score a) (score b)" "num_gt (score b) (score c)"
    | (ee) "num_eq (score a) (score b)" "map code (source a) \<le> map code (source b)"
           "num_eq (score b) (score c)" "map code (source b) \<le> map code (source c)"
    unfolding ranked_before_def by blast
  then show ?thesis
  proof cases
    case gg
    then have "num_gt (score a) (score c)" by (rule num_gt_trans)
    then show ?thesis by (simp add: ranked_before_def)
  next
    case ge
    then have "num_gt (score a) (score c)" by (rule num_gt_eq_trans)
    then show ?thesis by (simp add: ranked_before_def)
  next
    case eg
    then have "num_gt (score a) (score c)" by (rule num_eq_gt_trans)
    then show ?thesis by (simp add: ranked_before_def)
  next
    case ee
    from ee(1,3) have "num_eq (score a) (score c)" by (rule num_eq_trans)
    moreover from ee(2,4) have "map code (source a) \<le> map code (source c)"
      by (rule order_trans)
    ultimately show ?thesis by (simp add: ranked_before_def)
  qed
qed

lemma search_step_set:
  "set (search_step query options acc e) \<subseteq>
     set acc \<union> {r. num_gt (score (fuzzyMatch query (snd e) options)) (Fin 0)
          \<and> r = \<lparr>score = score (fuzzyMatch query (snd e) options),
                  matches = matches (fuzzyMatch query (snd e) options),
                  source = snd e, sourceIndex = fst e\<rparr>}"
  by (cases "num_gt (score (fuzzyMatch query (snd e) options)) (Fin 0)")
     (simp_all add: search_step_def Let_def)

lemma search_step_elems:
  "r \<in> set (foldl (search_step query options) acc entries) \<Longrightarrow>
     r \<in> set acc
     \<or> (\<exists>e \<in> set entries. num_gt (score (fuzzyMatch query (snd e) options)) (Fin 0)
          \<and> r = \<lparr>score = score (fuzzyMatch query (snd e) options),
                  matches = matches (fuzzyMatch query (snd e) options),
                  source = snd e, sourceIndex = fst e\<rparr>)"
proof (induction entries arbitrary: acc)
  case Nil
  then show ?case by simp
next
  case (Cons e es)
  from Cons.prems have "r \<in> set (foldl (search_step query options) (search_step query options acc e) es)"
    by simp
  from Cons.IH [OF this] show ?case
  proof
    assume "r \<in> set (search_step query options acc e)"
    with search_step_set [of query options acc e] show ?thesis by auto
  next
    assume "\<exists>e \<in> set es. num_gt (score (fuzzyMatch query (snd e) options)) (Fin 0)
          \<and> r = \<lparr>score = score (fuzzyMatch query (snd e) options),
                  matches = matches (fuzzyMatch query (snd e) options),
                  source = snd e, sourceIndex = fst e\<rparr>"
    then show ?thesis by auto
  qed
qed

lemma collect_results_elems:
  assumes "r \<in> set (collect_results query srcs options)"
  shows "num_gt (score r) (Fin 0)" "sourceIndex r < length srcs" "source r = srcs ! sourceIndex r"
    "score r = score (fuzzyMatch query (source r) options)"
    "matches r = matches (fuzzyMatch query (source r) options)"
proof -
  from search_step_elems [OF assms [unfolded collect_results_def]]
  obtain e where e: "e \<in> set (enumerate 0 srcs)"
      "num_gt (score (fuzzyMatch query (snd e) options)) (Fin 0)"
      "r = \<lparr>score = score (fuzzyMatch query (snd e) options),
            matches = matches (fuzzyMatch query (snd e) options),
            source = snd e, sourceIndex = fst e\<rparr>"
    by auto
  from e(1) have idx: "fst e < length srcs" "snd e = srcs ! fst e"
    by (auto simp: in_set_enumerate_eq)
  from e(2,3) show "num_gt (score r) (Fin 0)" by simp
  from e(3) idx show "sourceIndex r < length srcs" "source r = srcs ! sourceIndex r" by simp_all
  from e(3) show "score r = score (fuzzyMatch query (source r) options)"
    "matches r = matches (fuzzyMatch query (source r) options)" by simp_all
qed

text \<open>
  C4: the list returned by \<open>fuzzySearch\<close> is sorted by score descending, and results with
  exactly equal scores are in ascending order of their source strings.
\<close>
text \<open>
  C4: the list returned by \<open>fuzzySearch\<close> is sorted by score descending, and results with
  exactly equal scores are in ascending order of their source strings.
\<close>

theorem fuzzySearch_sorted:
  "sorted_wrt ranked_before (fuzzySearch query srcs options)"
proof -
  let ?S = "{r :: FuzzySearchResult. num_gt (score r) (Fin 0)}"
  have tot: "\<forall>a \<in> ?S. \<forall>b \<in> ?S.
      if compare_results a b \<le> 0 then ranked_before a b else ranked_before b a"
    using compare_results_total by blast
  have trans: "\<forall>a \<in> ?S. \<forall>b \<in> ?S. \<forall>c \<in> ?S.
      ranked_before a b \<longrightarrow> ranked_before b c \<longrightarrow> ranked_before a c"
    using ranked_before_trans by blast
  have sub: "set (collect_results query srcs options) \<subseteq> ?S"
    using collect_results_elems(1) by blast
  from sorted_sort_by [OF tot trans sub]
  show ?thesis by (simp add: fuzzySearch_def)
qed
theorem fuzzySearch_sorted_witness:
  "map (\<lambda>r. (source r, score r))
     (fuzzySearch (js ''text'') [js ''Value.equalsText'', js ''DOM.getInnerText'', js ''DOM.getText'']
        \<lparr>tokenScoreBias = None\<rparr>)
     = [(js ''DOM.getText'', Fin (5355631989305455 / 4503599627370496)),
        (js ''DOM.getInnerText'', Fin (1675758000882045 / 2251799813685248)),
        (js ''Value.equalsText'', Fin (1675758000882045 / 2251799813685248))]
   \<and> sorted_wrt ranked_before
       (fuzzySearch (js ''text'') [js ''Value.equalsText'', js ''DOM.getInnerText'', js ''DOM.getText'']
          \<lparr>tokenScoreBias = None\<rparr>)"
proof -
  have "map (\<lambda>r. (source r, score r))
     (fuzzySearch (js ''text'') [js ''Value.equalsText'', js ''DOM.getInnerText'', js ''DOM.getText'']
        \<lparr>tokenScoreBias = None\<rparr>)
     = [(js ''DOM.getText'', Fin (5355631989305455 / 4503599627370496)),
        (js ''DOM.getInnerText'', Fin (1675758000882045 / 2251799813685248)),
        (js ''Value.equalsText'', Fin (1675758000882045 / 2251799813685248))]"
    by code_simp
  then show ?thesis
    using fuzzySearch_sorted [of "js ''text''"
        "[js ''Value.equalsText'', js ''DOM.getInnerText'', js ''DOM.getText'']"
        "\<lparr>tokenScoreBias = None\<rparr>"]
    by blast
qed

text \<open>
  C10: every result of \<open>fuzzySearch\<close> carries the candidate found at its \<open>sourceIndex\<close>
  in the input list, with the score and the matches of \<open>fuzzyMatch\<close> on that candidate.
\<close>

theorem fuzzySearch_faithful:
  "\<forall>r \<in> set (fuzzySearch query srcs options).
     sourceIndex r < length srcs
     \<and> source r = srcs ! sourceIndex r
     \<and> score r = score (fuzzyMatch query (source r) options)
     \<and> matches r = matches (fuzzyMatch query (source r) options)"
proof
  fix r assume "r \<in> set (fuzzySearch query srcs options)"
  then have r: "r \<in> set (collect_results query srcs options)"
    by (simp add: fuzzySearch_def set_sort_by)
  show "sourceIndex r < length srcs
     \<and> source r = srcs ! sourceIndex r
     \<and> score r = score (fuzzyMatch query (source r) options)
     \<and> matches r = matches (fuzzyMatch query (source r) options)"
    by (intro conjI collect_results_elems [OF r])
qed
theorem fuzzySearch_faithful_witness:
  "\<lparr>score = Fin (6755399441055743 / 4503599627370496), matches = [1],
      source = js ''ago'', sourceIndex = 1\<rparr>
     \<in> set (fuzzySearch (js ''g'') [js ''go'', js ''ago''] \<lparr>tokenScoreBias = None\<rparr>)
   \<and> [js ''go'', js ''ago''] ! 1 = js ''ago''
   \<and> score (fuzzyMatch (js ''g'') (js ''ago'') \<lparr>tokenScoreBias = None\<rparr>)
       = Fin (6755399441055743 / 4503599627370496)
   \<and> matches (fuzzyMatch (js ''g'') (js ''ago'') \<lparr>tokenScoreBias = None\<rparr>) = [1]"
proof -
  let ?r = "\<lparr>score = Fin (6755399441055743 / 4503599627370496), matches = [1::nat],
      source = js ''ago'', sourceIndex = 1::nat\<rparr>"
  have rs: "fuzzySearch (js ''g'') [js ''go'', js ''ago''] \<lparr>tokenScoreBias = None\<rparr> = [?r]"
    by code_simp
  then have mem: "?r \<in> set (fuzzySearch (js ''g'') [js ''go'', js ''ago''] \<lparr>tokenScoreBias = None\<rparr>)"
    by simp
  from fuzzySearch_faithful [of "js ''g''" "[js ''go'', js ''ago'']" "\<lparr>tokenScoreBias = None\<rparr>"] mem
  have "score ?r = score (fuzzyMatch (js ''g'') (source ?r) \<lparr>tokenScoreBias = None\<rparr>)
        \<and> matches ?r = matches (fuzzyMatch (js ''g'') (source ?r) \<lparr>tokenScoreBias = None\<rparr>)"
    by blast
  with mem show ?thesis by simp
qed

end
